theory Spec2Isabelle
  imports Main "HOL-Library.Word"
begin

section \<open>The NeonCrypt message ledger (contracts/NeonCrypt.sol)\<close>

text \<open>
  A shallow embedding of the Solidity contract \<^verbatim>\<open>NeonCrypt\<close>. Solidity's
  \<^verbatim>\<open>uint256\<close> is a 256-bit word, an \<^verbatim>\<open>address\<close> a 160-bit word, and the
  encrypted handles \<^verbatim>\<open>euint32\<close> and \<^verbatim>\<open>externalEuint32\<close> are \<^verbatim>\<open>bytes32\<close>
  values. A \<^verbatim>\<open>mapping\<close> is a total function whose unwritten slots hold the zero value;
  a dynamic array is a list. Gas is not modelled.
\<close>

subsection \<open>Data\<close>

type_synonym uint256 = "256 word"
type_synonym address = "160 word"
type_synonym euint32 = "256 word"
type_synonym externalEuint32 = "256 word"
type_synonym bytes = "8 word list"

text \<open>\<^verbatim>\<open>struct Message\<close>.\<close>

record Message =
  encryptedContent :: euint32
  timestamp :: uint256
  sender :: address
  isActive :: bool

text \<open>The two events of the contract, with their arguments in declaration order.\<close>

datatype event =
  MessageSubmitted address uint256 uint256
| MessageDeleted address uint256

text \<open>
  A failed call. \<open>Revert\<close> carries the reason string of the failing \<^verbatim>\<open>require\<close>;
  \<open>Panic\<close> carries the compiler's panic code (\<open>0x11\<close> = 17 for checked arithmetic
  overflow, \<open>0x32\<close> = 50 for an array index out of bounds); \<open>ExternalRevert\<close> is a
  revert inside the FHE library, whose code is not part of the contract.
\<close>

datatype error = Revert string | Panic nat | ExternalRevert

text \<open>The four \<^verbatim>\<open>require\<close> messages of the contract, under the names the specification
  gives them.\<close>

abbreviation InvalidProof :: error where
  "InvalidProof \<equiv> Revert ''Input proof cannot be empty''"

abbreviation NotFound :: error where
  "NotFound \<equiv> Revert ''Message does not exist''"

abbreviation Unauthorized :: error where
  "Unauthorized \<equiv> Revert ''Not message owner''"

abbreviation AlreadyDeleted :: error where
  "AlreadyDeleted \<equiv> Revert ''Message already deleted''"

text \<open>
  The state a transaction can change: the three storage variables of the contract
  (\<^verbatim>\<open>_totalMessages\<close>, \<^verbatim>\<open>_messages\<close>, \<^verbatim>\<open>_userMessages\<close>, written without the leading
  underscore), the log of emitted events, and the state \<open>'w\<close> of the external FHE
  contracts (access-control list and input verifier), which the ledger only reaches
  through the library calls.
\<close>

record 'w state =
  totalMessages :: uint256
  messages :: "uint256 \<Rightarrow> Message"
  userMessages :: "address \<Rightarrow> uint256 list"
  events :: "event list"
  fhe_state :: 'w

text \<open>
  The FHE library (\<^verbatim>\<open>@fhevm/solidity/lib/FHE.sol\<close>) is imported, not defined, by the
  contract; its two entry points are parameters of the model. \<open>fromExternal\<close> takes the
  external state, the caller, the external handle and the proof, and either reverts
  (\<open>None\<close>) or returns the internal handle and the new external state. \<open>allow\<close> takes the
  external state, a handle and the grantee. \<^verbatim>\<open>FHE.allowThis(c)\<close> is \<open>allow\<close> with the
  contract's own address \<open>this\<close>. The library reads and writes the external state
  only; it does not call back into the ledger.
\<close>

record 'w FHE =
  fromExternal :: "'w \<Rightarrow> address \<Rightarrow> externalEuint32 \<Rightarrow> bytes \<Rightarrow> (euint32 \<times> 'w) option"
  allow :: "'w \<Rightarrow> euint32 \<Rightarrow> address \<Rightarrow> 'w option"
  this :: address

text \<open>The state after deployment: every storage slot is zero, nothing is logged.\<close>

definition zero_Message :: Message where
  "zero_Message = \<lparr>encryptedContent = 0, timestamp = 0, sender = 0, isActive = False\<rparr>"

definition deployed :: "'w \<Rightarrow> 'w state" where
  "deployed w = \<lparr>totalMessages = 0, messages = (\<lambda>_. zero_Message),
     userMessages = (\<lambda>_. []), events = [], fhe_state = w\<rparr>"

subsection \<open>Memory arrays\<close>

text \<open>Reading and writing a memory array at an index; out of range is \<^verbatim>\<open>Panic(0x32)\<close>.\<close>

definition mload :: "'a list \<Rightarrow> nat \<Rightarrow> error + 'a" where
  "mload xs i = (if i < length xs then Inr (xs ! i) else Inl (Panic 50))"

definition mstore :: "'a list \<Rightarrow> nat \<Rightarrow> 'a \<Rightarrow> error + 'a list" where
  "mstore xs i v = (if i < length xs then Inr (xs[i := v]) else Inl (Panic 50))"

subsection \<open>submitMessage\<close>

text \<open>
  \<^verbatim>\<open>function submitMessage(externalEuint32 encryptedContent, bytes calldata inputProof)\<close>.
  \<open>msg_sender\<close> and \<open>block_timestamp\<close> are \<^verbatim>\<open>msg.sender\<close> and \<^verbatim>\<open>block.timestamp\<close>.
  The post-increment \<^verbatim>\<open>_totalMessages++\<close> is checked arithmetic (Solidity 0.8): it
  panics when the counter is at its maximum, that is when adding one wraps to zero.
  A result \<open>Inl e\<close> is a revert: the caller keeps the state it had.
\<close>

definition submitMessage ::
  "'w FHE \<Rightarrow> address \<Rightarrow> uint256 \<Rightarrow> externalEuint32 \<Rightarrow> bytes \<Rightarrow> 'w state \<Rightarrow> error + 'w state"
where
  "submitMessage fhe msg_sender block_timestamp encryptedContent' inputProof s =
    (if \<not> (length inputProof > 0) then Inl InvalidProof
     else
       (case fromExternal fhe (fhe_state s) msg_sender encryptedContent' inputProof of
          None \<Rightarrow> Inl ExternalRevert
        | Some (content, w1) \<Rightarrow>
          (if totalMessages s + 1 = 0 then Inl (Panic 17)
           else
             (let messageId = totalMessages s;
                  s1 = s\<lparr>totalMessages := totalMessages s + 1\<rparr>;
                  s2 = s1\<lparr>messages := (messages s1)(messageId :=
                         \<lparr>encryptedContent = content, timestamp = block_timestamp,
                          sender = msg_sender, isActive = True\<rparr>)\<rparr>;
                  s3 = s2\<lparr>userMessages := (userMessages s2)(msg_sender :=
                         userMessages s2 msg_sender @ [messageId])\<rparr>
              in (case allow fhe w1 content (this fhe) of
                    None \<Rightarrow> Inl ExternalRevert
                  | Some w2 \<Rightarrow>
                    (case allow fhe w2 content msg_sender of
                       None \<Rightarrow> Inl ExternalRevert
                     | Some w3 \<Rightarrow>
                       Inr (s3\<lparr>fhe_state := w3,
                               events := events s3 @
                                 [MessageSubmitted msg_sender messageId block_timestamp]\<rparr>)))))))"

subsection \<open>The views\<close>

definition getMessage :: "'w state \<Rightarrow> uint256 \<Rightarrow> error + (euint32 \<times> uint256 \<times> address \<times> bool)" where
  "getMessage s messageId =
    (if \<not> messageId < totalMessages s then Inl NotFound
     else let msg' = messages s messageId
          in Inr (encryptedContent msg', timestamp msg', sender msg', isActive msg'))"

definition getUserMessages :: "'w state \<Rightarrow> address \<Rightarrow> uint256 list" where
  "getUserMessages s user = userMessages s user"

text \<open>The length of a storage array is itself a \<^verbatim>\<open>uint256\<close>.\<close>

definition getMessageCount :: "'w state \<Rightarrow> address \<Rightarrow> uint256" where
  "getMessageCount s user = of_nat (length (userMessages s user))"

definition getTotalMessages :: "'w state \<Rightarrow> uint256" where
  "getTotalMessages s = totalMessages s"

definition isMessageActive :: "'w state \<Rightarrow> uint256 \<Rightarrow> bool \<times> bool" where
  "isMessageActive s messageId =
    (if messageId \<ge> totalMessages s then (False, False)
     else (True, isActive (messages s messageId)))"

subsection \<open>The loops of the two array views\<close>

text \<open>
  \<^verbatim>\<open>for (uint256 i = 0; i < length; i++) { body }\<close>, started at \<open>i\<close>, with the memory
  arrays the body writes threaded through as \<open>a\<close>. A revert in the body ends the loop.
  The counter is a natural number: it stays below \<open>length\<close>, which is the length of an
  array, so the increment never wraps.
\<close>

function for_loop :: "nat \<Rightarrow> nat \<Rightarrow> (nat \<Rightarrow> 'a \<Rightarrow> error + 'a) \<Rightarrow> 'a \<Rightarrow> error + 'a" where
  "for_loop i length' body a =
    (if i < length' then
       (case body i a of
          Inl e \<Rightarrow> Inl e
        | Inr a' \<Rightarrow> for_loop (Suc i) length' body a')
     else Inr a)"
  by pat_completeness auto
termination
  by (relation "measure (\<lambda>(i, length', body, a). length' - i)") auto

declare for_loop.simps [simp del]

text \<open>The body of the loop of \<^verbatim>\<open>getUserMessageMetadata\<close>.\<close>

definition metadata_body ::
  "'w state \<Rightarrow> uint256 list \<Rightarrow> nat \<Rightarrow> uint256 list \<times> uint256 list \<times> bool list
     \<Rightarrow> error + (uint256 list \<times> uint256 list \<times> bool list)"
where
  "metadata_body s userMsgIds i arrays =
    (case arrays of (timestamps, messageIds, activeStatus) \<Rightarrow>
       (case mload userMsgIds i of
          Inl e \<Rightarrow> Inl e
        | Inr msgId \<Rightarrow>
          let msg' = messages s msgId in
          (case mstore timestamps i (timestamp msg') of
             Inl e \<Rightarrow> Inl e
           | Inr timestamps' \<Rightarrow>
             (case mstore messageIds i msgId of
                Inl e \<Rightarrow> Inl e
              | Inr messageIds' \<Rightarrow>
                (case mstore activeStatus i (isActive msg') of
                   Inl e \<Rightarrow> Inl e
                 | Inr activeStatus' \<Rightarrow> Inr (timestamps', messageIds', activeStatus'))))))"

definition getUserMessageMetadata ::
  "'w state \<Rightarrow> address \<Rightarrow> error + (uint256 list \<times> uint256 list \<times> bool list)"
where
  "getUserMessageMetadata s user =
    (let userMsgIds = userMessages s user;
         length' = length userMsgIds;
         timestamps = replicate length' 0;
         messageIds = replicate length' 0;
         activeStatus = replicate length' False
     in for_loop 0 length' (metadata_body s userMsgIds) (timestamps, messageIds, activeStatus))"

text \<open>The body of the loop of \<^verbatim>\<open>getMessagesBatch\<close>, with its \<^verbatim>\<open>require\<close>.\<close>

definition batch_body ::
  "'w state \<Rightarrow> uint256 list \<Rightarrow> nat \<Rightarrow> uint256 list \<times> address list \<times> bool list
     \<Rightarrow> error + (uint256 list \<times> address list \<times> bool list)"
where
  "batch_body s messageIds i arrays =
    (case arrays of (timestamps, senders, activeStatuses) \<Rightarrow>
       (case mload messageIds i of
          Inl e \<Rightarrow> Inl e
        | Inr msgId \<Rightarrow>
          if \<not> msgId < totalMessages s then Inl NotFound
          else
            let msg' = messages s msgId in
            (case mstore timestamps i (timestamp msg') of
               Inl e \<Rightarrow> Inl e
             | Inr timestamps' \<Rightarrow>
               (case mstore senders i (sender msg') of
                  Inl e \<Rightarrow> Inl e
                | Inr senders' \<Rightarrow>
                  (case mstore activeStatuses i (isActive msg') of
                     Inl e \<Rightarrow> Inl e
                   | Inr activeStatuses' \<Rightarrow> Inr (timestamps', senders', activeStatuses'))))))"

definition getMessagesBatch ::
  "'w state \<Rightarrow> uint256 list \<Rightarrow> error + (uint256 list \<times> address list \<times> bool list)"
where
  "getMessagesBatch s messageIds =
    (let length' = length messageIds;
         timestamps = replicate length' 0;
         senders = replicate length' 0;
         activeStatuses = replicate length' False
     in for_loop 0 length' (batch_body s messageIds) (timestamps, senders, activeStatuses))"

subsection \<open>deleteMessage\<close>

definition deleteMessage :: "address \<Rightarrow> uint256 \<Rightarrow> 'w state \<Rightarrow> error + 'w state" where
  "deleteMessage msg_sender messageId s =
    (if \<not> messageId < totalMessages s then Inl NotFound
     else
       let msg' = messages s messageId in
       if \<not> sender msg' = msg_sender then Inl Unauthorized
       else if \<not> isActive msg' then Inl AlreadyDeleted
       else Inr (s\<lparr>messages := (messages s)(messageId := msg'\<lparr>isActive := False\<rparr>),
                   events := events s @ [MessageDeleted msg_sender messageId]\<rparr>))"

subsection \<open>Transactions\<close>

text \<open>
  A call to one of the nine external functions, and what it returns. A transaction is a
  call together with its \<^verbatim>\<open>msg.sender\<close> and \<^verbatim>\<open>block.timestamp\<close>. A call that reverts
  leaves the state as it was; a view returns the state it was given.
\<close>

datatype call =
  SubmitMessage externalEuint32 bytes
| GetMessage uint256
| GetUserMessages address
| GetMessageCount address
| GetUserMessageMetadata address
| GetTotalMessages
| GetMessagesBatch "uint256 list"
| DeleteMessage uint256
| IsMessageActive uint256

datatype retval =
  Unit
| Msg "euint32 \<times> uint256 \<times> address \<times> bool"
| Ids "uint256 list"
| Count uint256
| Metadata "uint256 list \<times> uint256 list \<times> bool list"
| Batch "uint256 list \<times> address list \<times> bool list"
| Status "bool \<times> bool"

type_synonym tx = "address \<times> uint256 \<times> call"

fun execute :: "'w FHE \<Rightarrow> tx \<Rightarrow> 'w state \<Rightarrow> (error + retval) \<times> 'w state" where
  "execute fhe (msg_sender, block_timestamp, SubmitMessage h p) s =
    (case submitMessage fhe msg_sender block_timestamp h p s of
       Inl e \<Rightarrow> (Inl e, s) | Inr s' \<Rightarrow> (Inr Unit, s'))"
| "execute fhe (msg_sender, block_timestamp, GetMessage messageId) s =
    (case getMessage s messageId of
       Inl e \<Rightarrow> (Inl e, s) | Inr r \<Rightarrow> (Inr (Msg r), s))"
| "execute fhe (msg_sender, block_timestamp, GetUserMessages user) s =
    (Inr (Ids (getUserMessages s user)), s)"
| "execute fhe (msg_sender, block_timestamp, GetMessageCount user) s =
    (Inr (Count (getMessageCount s user)), s)"
| "execute fhe (msg_sender, block_timestamp, GetUserMessageMetadata user) s =
    (case getUserMessageMetadata s user of
       Inl e \<Rightarrow> (Inl e, s) | Inr r \<Rightarrow> (Inr (Metadata r), s))"
| "execute fhe (msg_sender, block_timestamp, GetTotalMessages) s =
    (Inr (Count (getTotalMessages s)), s)"
| "execute fhe (msg_sender, block_timestamp, GetMessagesBatch messageIds) s =
    (case getMessagesBatch s messageIds of
       Inl e \<Rightarrow> (Inl e, s) | Inr r \<Rightarrow> (Inr (Batch r), s))"
| "execute fhe (msg_sender, block_timestamp, DeleteMessage messageId) s =
    (case deleteMessage msg_sender messageId s of
       Inl e \<Rightarrow> (Inl e, s) | Inr s' \<Rightarrow> (Inr Unit, s'))"
| "execute fhe (msg_sender, block_timestamp, IsMessageActive messageId) s =
    (Inr (Status (isMessageActive s messageId)), s)"

text \<open>The state after a sequence of transactions, and what each of them returned.\<close>

fun run :: "'w FHE \<Rightarrow> tx list \<Rightarrow> 'w state \<Rightarrow> 'w state" where
  "run fhe [] s = s"
| "run fhe (t # ts) s = run fhe ts (snd (execute fhe t s))"

fun results :: "'w FHE \<Rightarrow> tx list \<Rightarrow> 'w state \<Rightarrow> (error + retval) list" where
  "results fhe [] s = []"
| "results fhe (t # ts) s = fst (execute fhe t s) # results fhe ts (snd (execute fhe t s))"

text \<open>
  A test double of the FHE library, as the mock environment of the test suite provides:
  every input is accepted with its handle unchanged, and every grant is recorded.
\<close>

definition mock_fhe :: "(euint32 \<times> address) list FHE" where
  "mock_fhe = \<lparr>fromExternal = (\<lambda>w caller h p. Some (h, w)),
               allow = (\<lambda>w c a. Some (w @ [(c, a)])),
               this = 0xC0\<rparr>"

text \<open>Two callers and the transactions of the test suite's scenarios, for evaluation.\<close>

definition alice :: address where
  "alice = 0xA11CE"

definition bob :: address where
  "bob = 0xB0B"

definition three_by_alice :: "tx list" where
  "three_by_alice =
    [(alice, 100, SubmitMessage 7 [1]),
     (alice, 100, SubmitMessage 8 [1, 2]),
     (alice, 101, SubmitMessage 9 [3])]"

definition mixed_history :: "tx list" where
  "mixed_history =
    [(alice, 100, SubmitMessage 7 [1]),
     (bob, 100, SubmitMessage 8 []),
     (bob, 101, SubmitMessage 8 [2]),
     (bob, 102, DeleteMessage 0),
     (alice, 103, DeleteMessage 0),
     (alice, 104, SubmitMessage 9 [3]),
     (alice, 105, DeleteMessage 0),
     (bob, 106, GetMessagesBatch [0, 5])]"

subsection \<open>Observations on a history\<close>

text \<open>
  The message ids carried by the \<open>MessageSubmitted\<close> events of a log, in the order of
  emission: of all senders, and of one sender.
\<close>

fun created_ids :: "event list \<Rightarrow> uint256 list" where
  "created_ids [] = []"
| "created_ids (MessageSubmitted a messageId t # es) = messageId # created_ids es"
| "created_ids (MessageDeleted a messageId # es) = created_ids es"

fun created_by :: "address \<Rightarrow> event list \<Rightarrow> uint256 list" where
  "created_by user [] = []"
| "created_by user (MessageSubmitted a messageId t # es) =
    (if a = user then messageId # created_by user es else created_by user es)"
| "created_by user (MessageDeleted a messageId # es) = created_by user es"

text \<open>The number of \<open>submitMessage\<close> calls in a sequence of transactions that did not
  revert.\<close>

fun is_submit :: "tx \<Rightarrow> bool" where
  "is_submit (msg_sender, block_timestamp, SubmitMessage h p) = True"
| "is_submit (msg_sender, block_timestamp, c) = False"

definition successful_creates :: "'w FHE \<Rightarrow> tx list \<Rightarrow> 'w state \<Rightarrow> nat" where
  "successful_creates fhe txs s =
    length (filter (\<lambda>(t, r). is_submit t \<and> \<not> isl r) (zip txs (results fhe txs s)))"

subsection \<open>The metadata view, as the specification words it\<close>

text \<open>
  The specification describes the metadata view of a sender as \<open>getMessage\<close> mapped over
  \<open>getUserMessages\<close>, each result projected to timestamp, id and active flag. This is
  that description, written without reference to the loop of \<open>getUserMessageMetadata\<close>;
  it fails where a \<open>getMessage\<close> fails.
\<close>

fun map_getMessage :: "'w state \<Rightarrow> uint256 list \<Rightarrow> error + (uint256 \<times> uint256 \<times> bool) list" where
  "map_getMessage s [] = Inr []"
| "map_getMessage s (messageId # rest) =
    (case getMessage s messageId of
       Inl e \<Rightarrow> Inl e
     | Inr (content, createdAt, owner, active) \<Rightarrow>
       (case map_getMessage s rest of
          Inl e \<Rightarrow> Inl e
        | Inr rows \<Rightarrow> Inr ((createdAt, messageId, active) # rows)))"

definition metadata_by_getMessage ::
  "'w state \<Rightarrow> address \<Rightarrow> error + (uint256 \<times> uint256 \<times> bool) list"
where
  "metadata_by_getMessage s user = map_getMessage s (getUserMessages s user)"

section \<open>Properties\<close>

subsection \<open>What a successful call does\<close>

lemma uint256_Suc: "(x::uint256) + 1 \<noteq> 0 \<Longrightarrow> unat (x + 1) = Suc (unat x)"
  using unatSuc [of x] by (simp add: add.commute)

lemma submitMessage_Inr:
  assumes "submitMessage fhe a t h p s = Inr s'"
  shows "p \<noteq> [] \<and> totalMessages s + 1 \<noteq> 0
    \<and> totalMessages s' = totalMessages s + 1
    \<and> (\<exists>content. messages s' = (messages s)(totalMessages s :=
          \<lparr>encryptedContent = content, timestamp = t, sender = a, isActive = True\<rparr>))
    \<and> userMessages s' = (userMessages s)(a := userMessages s a @ [totalMessages s])
    \<and> events s' = events s @ [MessageSubmitted a (totalMessages s) t]"
  using assms
  by (auto simp: submitMessage_def Let_def split: if_splits option.splits prod.splits)

lemma deleteMessage_Inr:
  assumes "deleteMessage a i s = Inr s'"
  shows "i < totalMessages s \<and> sender (messages s i) = a \<and> isActive (messages s i)
    \<and> s' = s\<lparr>messages := (messages s)(i := (messages s i)\<lparr>isActive := False\<rparr>),
              events := events s @ [MessageDeleted a i]\<rparr>"
  using assms
  by (auto simp: deleteMessage_def Let_def split: if_splits)

text \<open>Every transaction either leaves the state alone, or is a successful
  \<open>submitMessage\<close>, or is a successful \<open>deleteMessage\<close>.\<close>

lemma execute_cases:
  obtains (unchanged) "snd (execute fhe t s) = s"
  | (submitted) a ts h p s' where "t = (a, ts, SubmitMessage h p)"
      "submitMessage fhe a ts h p s = Inr s'" "execute fhe t s = (Inr Unit, s')"
  | (deleted) a ts i s' where "t = (a, ts, DeleteMessage i)"
      "deleteMessage a i s = Inr s'" "execute fhe t s = (Inr Unit, s')"
proof -
  obtain a ts c where t: "t = (a, ts, c)" by (cases t) auto
  show thesis
  proof (cases c)
    case (SubmitMessage h p)
    then show ?thesis using t unchanged submitted
      by (cases "submitMessage fhe a ts h p s") auto
  next
    case (DeleteMessage i)
    then show ?thesis using t unchanged deleted
      by (cases "deleteMessage a i s") auto
  qed (use t unchanged in \<open>auto split: sum.splits\<close>)
qed

lemma run_append: "run fhe (ts @ us) s = run fhe us (run fhe ts s)"
  by (induction ts arbitrary: s) auto

subsection \<open>What no transaction changes\<close>

lemma execute_total_mono:
  "unat (totalMessages s) \<le> unat (totalMessages (snd (execute fhe t s)))"
proof (cases rule: execute_cases [of fhe t s])
  case unchanged
  then show ?thesis by simp
next
  case (submitted a ts h p s')
  then show ?thesis using submitMessage_Inr [OF submitted(2)] by (simp add: uint256_Suc)
next
  case (deleted a ts i s')
  then show ?thesis using deleteMessage_Inr [OF deleted(2)] by simp
qed

text \<open>A record that exists keeps its content, timestamp and sender, and once inactive
  stays inactive.\<close>

lemma execute_record:
  assumes "i < totalMessages s"
  shows "encryptedContent (messages (snd (execute fhe t s)) i) = encryptedContent (messages s i)
    \<and> timestamp (messages (snd (execute fhe t s)) i) = timestamp (messages s i)
    \<and> sender (messages (snd (execute fhe t s)) i) = sender (messages s i)
    \<and> (isActive (messages (snd (execute fhe t s)) i) \<longrightarrow> isActive (messages s i))"
proof (cases rule: execute_cases [of fhe t s])
  case unchanged
  then show ?thesis by simp
next
  case (submitted a ts h p s')
  have "i \<noteq> totalMessages s" using assms by auto
  with submitMessage_Inr [OF submitted(2)] show ?thesis
    using submitted(3) by auto
next
  case (deleted a ts j s')
  from deleteMessage_Inr [OF deleted(2)] show ?thesis
    using deleted(3) by auto
qed

lemma run_total_mono: "unat (totalMessages s) \<le> unat (totalMessages (run fhe ts s))"
proof (induction ts arbitrary: s)
  case Nil
  then show ?case by simp
next
  case (Cons t ts)
  have "unat (totalMessages s) \<le> unat (totalMessages (snd (execute fhe t s)))"
    by (rule execute_total_mono)
  also have "\<dots> \<le> unat (totalMessages (run fhe ts (snd (execute fhe t s))))"
    by (rule Cons.IH)
  finally show ?case by simp
qed

lemma run_record:
  assumes "i < totalMessages s"
  shows "i < totalMessages (run fhe ts s)
    \<and> encryptedContent (messages (run fhe ts s) i) = encryptedContent (messages s i)
    \<and> timestamp (messages (run fhe ts s) i) = timestamp (messages s i)
    \<and> sender (messages (run fhe ts s) i) = sender (messages s i)
    \<and> (isActive (messages (run fhe ts s) i) \<longrightarrow> isActive (messages s i))"
  using assms
proof (induction ts arbitrary: s)
  case Nil
  then show ?case by simp
next
  case (Cons t ts)
  let ?s1 = "snd (execute fhe t s)"
  have lt: "i < totalMessages ?s1"
    using Cons.prems execute_total_mono [of s fhe t] by (simp add: word_less_nat_alt)
  from Cons.IH [OF lt] execute_record [OF Cons.prems, of fhe t] show ?case by simp
qed


lemmas ledger_defs =
  mock_fhe_def deployed_def alice_def bob_def three_by_alice_def mixed_history_def
  submitMessage_def deleteMessage_def getMessage_def getUserMessages_def
  getMessageCount_def getTotalMessages_def isMessageActive_def zero_Message_def

lemmas loop_defs =
  getMessagesBatch_def getUserMessageMetadata_def for_loop.simps batch_body_def
  metadata_body_def mload_def mstore_def

subsection \<open>submitMessage with an empty proof\<close>

text \<open>
  C5. A call of \<open>submitMessage\<close> with an empty proof fails with \<open>InvalidProof\<close>, whatever
  the FHE library would do, and the transaction leaves the whole state as it was: the
  counter, the records, every sender's index, the event log.
\<close>

theorem C5_empty_proof_rejected:
  "submitMessage fhe a t h [] s = Inl InvalidProof
   \<and> execute fhe (a, t, SubmitMessage h []) s = (Inl InvalidProof, s)
   \<and> run fhe [(a, t, SubmitMessage h [])] s = s"
  by (simp add: submitMessage_def)

theorem C5_empty_proof_rejected_witness:
  "execute mock_fhe (bob, 100, SubmitMessage 8 []) (run mock_fhe three_by_alice (deployed []))
     = (Inl InvalidProof, run mock_fhe three_by_alice (deployed []))
   \<and> getTotalMessages (run mock_fhe (three_by_alice @ [(bob, 100, SubmitMessage 8 [])])
        (deployed [])) = 3"
  using C5_empty_proof_rejected [of mock_fhe bob 100 8 "run mock_fhe three_by_alice (deployed [])"]
  by (simp add: run_append) (simp add: ledger_defs)

subsection \<open>getMessage\<close>

text \<open>
  C6. \<open>getMessage\<close> succeeds exactly when the id is below the total count, and then
  returns the four fields of the stored record; for any other id it fails with
  \<open>NotFound\<close>; the call leaves the state as it was.
\<close>

theorem C6_getMessage_contract:
  "(i < getTotalMessages s \<longrightarrow>
      getMessage s i = Inr (encryptedContent (messages s i), timestamp (messages s i),
                            sender (messages s i), isActive (messages s i)))
   \<and> (getTotalMessages s \<le> i \<longrightarrow> getMessage s i = Inl NotFound)
   \<and> ((\<exists>r. getMessage s i = Inr r) \<longleftrightarrow> i < getTotalMessages s)
   \<and> snd (execute fhe (a, t, GetMessage i) s) = s"
  by (auto simp: getMessage_def getTotalMessages_def Let_def split: sum.splits)

theorem C6_getMessage_contract_witness:
  "(1::uint256) < getTotalMessages (run mock_fhe three_by_alice (deployed []))
   \<and> getMessage (run mock_fhe three_by_alice (deployed [])) 1 = Inr (8, 100, alice, True)
   \<and> getTotalMessages (deployed ([] :: (euint32 \<times> address) list)) \<le> 999
   \<and> getMessage (deployed ([] :: (euint32 \<times> address) list)) 999 = Inl NotFound"
  using C6_getMessage_contract [of 1 "run mock_fhe three_by_alice (deployed [])"]
    C6_getMessage_contract [of 999 "deployed ([] :: (euint32 \<times> address) list)"]
  by (simp add: ledger_defs)


subsection \<open>deleteMessage\<close>

text \<open>
  C2. \<open>deleteMessage\<close> checks its three preconditions in order: an id that is not below
  the total count fails with \<open>NotFound\<close>; else a caller that is not the record's sender
  fails with \<open>Unauthorized\<close>, whether or not the record is still active; else an inactive
  record fails with \<open>AlreadyDeleted\<close>; else the call succeeds and clears the active flag.
  After a success \<open>isMessageActive\<close> gives \<open>(True, False)\<close> and a further delete by the
  sender fails with \<open>AlreadyDeleted\<close>, directly and after any later transactions; a delete
  of an existing record by another caller fails with \<open>Unauthorized\<close> after any
  transactions, deletes included.
\<close>

theorem C2_delete_preconditions:
  "(totalMessages s \<le> i \<longrightarrow> deleteMessage a i s = Inl NotFound)
   \<and> (i < totalMessages s \<and> sender (messages s i) \<noteq> a \<longrightarrow>
        deleteMessage a i s = Inl Unauthorized
        \<and> (\<forall>txs. deleteMessage a i (run fhe txs s) = Inl Unauthorized))
   \<and> (i < totalMessages s \<and> sender (messages s i) = a \<and> \<not> isActive (messages s i) \<longrightarrow>
        deleteMessage a i s = Inl AlreadyDeleted)
   \<and> (i < totalMessages s \<and> sender (messages s i) = a \<and> isActive (messages s i) \<longrightarrow>
        (\<exists>s'. deleteMessage a i s = Inr s'
          \<and> \<not> isActive (messages s' i)
          \<and> isMessageActive s' i = (True, False)
          \<and> deleteMessage a i s' = Inl AlreadyDeleted
          \<and> (\<forall>txs. isMessageActive (run fhe txs s') i = (True, False)
                \<and> deleteMessage a i (run fhe txs s') = Inl AlreadyDeleted)))"
proof (intro conjI impI)
  assume "totalMessages s \<le> i"
  then show "deleteMessage a i s = Inl NotFound"
    by (simp add: deleteMessage_def not_less)
next
  assume h: "i < totalMessages s \<and> sender (messages s i) \<noteq> a"
  then show "deleteMessage a i s = Inl Unauthorized"
    by (simp add: deleteMessage_def Let_def)
  show "\<forall>txs. deleteMessage a i (run fhe txs s) = Inl Unauthorized"
  proof
    fix txs
    from h run_record [of i s fhe txs] show "deleteMessage a i (run fhe txs s) = Inl Unauthorized"
      by (simp add: deleteMessage_def Let_def)
  qed
next
  assume "i < totalMessages s \<and> sender (messages s i) = a \<and> \<not> isActive (messages s i)"
  then show "deleteMessage a i s = Inl AlreadyDeleted"
    by (simp add: deleteMessage_def Let_def)
next
  assume h: "i < totalMessages s \<and> sender (messages s i) = a \<and> isActive (messages s i)"
  define s' where "s' = s\<lparr>messages := (messages s)(i := (messages s i)\<lparr>isActive := False\<rparr>),
                          events := events s @ [MessageDeleted a i]\<rparr>"
  have del: "deleteMessage a i s = Inr s'"
    using h by (simp add: deleteMessage_def Let_def s'_def)
  have s': "i < totalMessages s'" "sender (messages s' i) = a" "\<not> isActive (messages s' i)"
    using h by (simp_all add: s'_def)
  have later: "isMessageActive (run fhe txs s') i = (True, False)
      \<and> deleteMessage a i (run fhe txs s') = Inl AlreadyDeleted" for txs
    using s' run_record [of i s' fhe txs]
    by (simp add: isMessageActive_def deleteMessage_def Let_def not_le)
  have "isMessageActive s' i = (True, False)" "deleteMessage a i s' = Inl AlreadyDeleted"
    using later [of "[]"] by simp_all
  with del s'(3) later
  show "\<exists>s'. deleteMessage a i s = Inr s'
          \<and> \<not> isActive (messages s' i)
          \<and> isMessageActive s' i = (True, False)
          \<and> deleteMessage a i s' = Inl AlreadyDeleted
          \<and> (\<forall>txs. isMessageActive (run fhe txs s') i = (True, False)
                \<and> deleteMessage a i (run fhe txs s') = Inl AlreadyDeleted)"
    by blast
qed

theorem C2_delete_preconditions_witness:
  "deleteMessage alice 3 (run mock_fhe three_by_alice (deployed [])) = Inl NotFound
   \<and> deleteMessage bob 0 (run mock_fhe three_by_alice (deployed [])) = Inl Unauthorized
   \<and> deleteMessage bob 0 (run mock_fhe [(alice, 102, DeleteMessage 0)]
        (run mock_fhe three_by_alice (deployed []))) = Inl Unauthorized
   \<and> (\<exists>s'. deleteMessage alice 0 (run mock_fhe three_by_alice (deployed [])) = Inr s'
         \<and> isMessageActive s' 0 = (True, False)
         \<and> deleteMessage alice 0 s' = Inl AlreadyDeleted)
   \<and> deleteMessage alice 0 (run mock_fhe (three_by_alice @ [(alice, 102, DeleteMessage 0)])
        (deployed [])) = Inl AlreadyDeleted"
proof -
  let ?s = "run mock_fhe three_by_alice (deployed [])"
  let ?d = "run mock_fhe (three_by_alice @ [(alice, 102, DeleteMessage 0)]) (deployed [])"
  have total: "totalMessages ?s = 3" and totald: "totalMessages ?d = 3"
    and rec0: "messages ?s 0 = \<lparr>encryptedContent = 7, timestamp = 100, sender = alice, isActive = True\<rparr>"
    and recd: "messages ?d 0 = \<lparr>encryptedContent = 7, timestamp = 100, sender = alice, isActive = False\<rparr>"
    and ne: "alice \<noteq> bob"
    by (simp_all add: ledger_defs)
  have A: "deleteMessage alice 3 ?s = Inl NotFound"
    using C2_delete_preconditions [of ?s 3 alice mock_fhe] total by simp
  have B: "deleteMessage bob 0 ?s = Inl Unauthorized
      \<and> (\<forall>txs. deleteMessage bob 0 (run mock_fhe txs ?s) = Inl Unauthorized)"
    using C2_delete_preconditions [of ?s 0 bob mock_fhe] total rec0 ne by simp
  have C: "\<exists>s'. deleteMessage alice 0 ?s = Inr s' \<and> isMessageActive s' 0 = (True, False)
      \<and> deleteMessage alice 0 s' = Inl AlreadyDeleted"
    using C2_delete_preconditions [of ?s 0 alice mock_fhe] total rec0 by auto
  have D: "deleteMessage alice 0 ?d = Inl AlreadyDeleted"
    using C2_delete_preconditions [of ?d 0 alice mock_fhe] totald recd by simp
  from A B C D show ?thesis by blast
qed

text \<open>
  C9. A successful \<open>deleteMessage\<close> changes one thing in storage, the active flag of the
  record it names: that record keeps its content handle, timestamp and sender, every
  other record, every sender's index and the total count are as before, and so is the
  state of the FHE contracts. The event log gains the \<open>MessageDeleted\<close> event.
\<close>

theorem C9_delete_frame:
  assumes "deleteMessage a i s = Inr s'"
  shows "\<not> isActive (messages s' i)
    \<and> encryptedContent (messages s' i) = encryptedContent (messages s i)
    \<and> timestamp (messages s' i) = timestamp (messages s i)
    \<and> sender (messages s' i) = sender (messages s i)
    \<and> (\<forall>j. j \<noteq> i \<longrightarrow> messages s' j = messages s j)
    \<and> userMessages s' = userMessages s
    \<and> totalMessages s' = totalMessages s
    \<and> fhe_state s' = fhe_state s
    \<and> events s' = events s @ [MessageDeleted a i]
    \<and> s' = s\<lparr>messages := (messages s)(i := (messages s i)\<lparr>isActive := False\<rparr>),
              events := events s @ [MessageDeleted a i]\<rparr>"
  using deleteMessage_Inr [OF assms] by simp

theorem C9_delete_frame_witness:
  "\<exists>s'. deleteMessage alice 1 (run mock_fhe three_by_alice (deployed [])) = Inr s'
     \<and> getMessage s' 1 = Inr (8, 100, alice, False)
     \<and> getMessage s' 0 = Inr (7, 100, alice, True)
     \<and> getUserMessages s' alice = [0, 1, 2]
     \<and> getTotalMessages s' = 3"
proof -
  let ?s = "run mock_fhe three_by_alice (deployed [])"
  let ?s' = "?s\<lparr>messages := (messages ?s)(1 := (messages ?s 1)\<lparr>isActive := False\<rparr>),
              events := events ?s @ [MessageDeleted alice 1]\<rparr>"
  have del: "deleteMessage alice 1 ?s = Inr ?s'"
    by (simp add: ledger_defs)
  have "getMessage ?s 1 = Inr (8, 100, alice, True)" "getMessage ?s 0 = Inr (7, 100, alice, True)"
    "getUserMessages ?s alice = [0, 1, 2]" "getTotalMessages ?s = 3"
    by (simp_all add: ledger_defs)
  with C9_delete_frame [OF del] del show ?thesis
    by (auto simp: getMessage_def getUserMessages_def getTotalMessages_def Let_def
             split: if_splits)
qed


subsection \<open>Message ids\<close>

lemma created_ids_append: "created_ids (es @ fs) = created_ids es @ created_ids fs"
  by (induction es rule: created_ids.induct) auto

lemma created_by_append: "created_by u (es @ fs) = created_by u es @ created_by u fs"
  by (induction u es rule: created_by.induct) auto

lemma successful_creates_Nil: "successful_creates fhe [] s = 0"
  by (simp add: successful_creates_def)

lemma successful_creates_Cons:
  "successful_creates fhe (t # ts) s =
    (if is_submit t \<and> \<not> isl (fst (execute fhe t s)) then 1 else 0)
      + successful_creates fhe ts (snd (execute fhe t s))"
  by (simp add: successful_creates_def)

text \<open>One transaction: the counter and the created ids grow together, by one id (the old
  counter) when the transaction is a \<open>submitMessage\<close> that succeeds, and not at all
  otherwise.\<close>

lemma execute_count:
  "unat (totalMessages (snd (execute fhe t s))) =
      unat (totalMessages s) + (if is_submit t \<and> \<not> isl (fst (execute fhe t s)) then 1 else 0)
   \<and> created_ids (events (snd (execute fhe t s))) =
      created_ids (events s) @
        (if is_submit t \<and> \<not> isl (fst (execute fhe t s)) then [totalMessages s] else [])"
proof -
  obtain a ts c where t: "t = (a, ts, c)" by (cases t) auto
  show ?thesis
  proof (cases c)
    case (SubmitMessage h p)
    show ?thesis
    proof (cases "submitMessage fhe a ts h p s")
      case (Inl e)
      then show ?thesis using t SubmitMessage by simp
    next
      case (Inr s')
      from submitMessage_Inr [OF Inr] show ?thesis
        using t SubmitMessage Inr by (simp add: uint256_Suc created_ids_append)
    qed
  next
    case (DeleteMessage i)
    show ?thesis
    proof (cases "deleteMessage a i s")
      case (Inl e)
      then show ?thesis using t DeleteMessage by simp
    next
      case (Inr s')
      from deleteMessage_Inr [OF Inr] show ?thesis
        using t DeleteMessage Inr by (simp add: created_ids_append)
    qed
  qed (use t in \<open>auto split: sum.splits\<close>)
qed

lemma upt_of_nat_step:
  "(x::uint256) # map of_nat [Suc (unat x)..<Suc (unat x + n)] = map of_nat [unat x..<Suc (unat x + n)]"
  using upt_rec [of "unat x" "Suc (unat x + n)"] by (simp del: upt_Suc)

lemma run_count:
  "unat (totalMessages (run fhe txs s)) = unat (totalMessages s) + successful_creates fhe txs s
   \<and> created_ids (events (run fhe txs s)) =
       created_ids (events s) @
         map of_nat [unat (totalMessages s)..<unat (totalMessages s) + successful_creates fhe txs s]"
proof (induction txs arbitrary: s)
  case Nil
  then show ?case by (simp add: successful_creates_Nil)
next
  case (Cons t txs)
  let ?s1 = "snd (execute fhe t s)"
  show ?case
  proof (cases "is_submit t \<and> \<not> isl (fst (execute fhe t s))")
    case True
    with execute_count [of fhe t s]
    have 1: "unat (totalMessages ?s1) = Suc (unat (totalMessages s))"
      and 2: "created_ids (events ?s1) = created_ids (events s) @ [totalMessages s]"
      by simp_all
    from Cons.IH [of ?s1] True show ?thesis
      by (simp add: successful_creates_Cons 1 2 upt_of_nat_step del: upt_Suc)
  next
    case False
    with execute_count [of fhe t s]
    have 1: "unat (totalMessages ?s1) = unat (totalMessages s)"
      and 2: "created_ids (events ?s1) = created_ids (events s)"
      by auto
    from Cons.IH [of ?s1] False show ?thesis
      by (simp add: successful_creates_Cons 1 2)
  qed
qed

text \<open>
  C1. Started from the deployed contract, after any sequence of transactions the ids
  given to the successful \<open>submitMessage\<close> calls are \<open>0, 1, \<dots>, n - 1\<close> in call order,
  where \<open>n\<close> is the number of those calls, and \<open>getTotalMessages\<close> is \<open>n\<close>. Each successful
  \<open>submitMessage\<close> raises the total by exactly one, without wrapping, and stores the new
  active record under the total the call found.
\<close>

theorem C1_monotonic_dense_ids:
  "created_ids (events (run fhe txs (deployed w)))
     = map of_nat [0..<successful_creates fhe txs (deployed w)]
   \<and> unat (getTotalMessages (run fhe txs (deployed w))) = successful_creates fhe txs (deployed w)
   \<and> (\<forall>a t h p s s'. submitMessage fhe a t h p s = Inr s' \<longrightarrow>
         getTotalMessages s' = getTotalMessages s + 1
         \<and> unat (getTotalMessages s') = unat (getTotalMessages s) + 1
         \<and> (\<exists>content. messages s' (getTotalMessages s) =
               \<lparr>encryptedContent = content, timestamp = t, sender = a, isActive = True\<rparr>)
         \<and> created_ids (events s') = created_ids (events s) @ [getTotalMessages s])"
proof (intro conjI allI impI)
  show "created_ids (events (run fhe txs (deployed w)))
     = map of_nat [0..<successful_creates fhe txs (deployed w)]"
    using run_count [of fhe txs "deployed w"] by (simp add: deployed_def)
  show "unat (getTotalMessages (run fhe txs (deployed w))) = successful_creates fhe txs (deployed w)"
    using run_count [of fhe txs "deployed w"] by (simp add: deployed_def getTotalMessages_def)
next
  fix a t h p and s s' :: "'a state"
  assume "submitMessage fhe a t h p s = Inr s'"
  note r = submitMessage_Inr [OF this]
  from r show "getTotalMessages s' = getTotalMessages s + 1"
    by (simp add: getTotalMessages_def)
  from r show "unat (getTotalMessages s') = unat (getTotalMessages s) + 1"
    by (simp add: getTotalMessages_def uint256_Suc)
  from r show "\<exists>content. messages s' (getTotalMessages s) =
               \<lparr>encryptedContent = content, timestamp = t, sender = a, isActive = True\<rparr>"
    by (auto simp: getTotalMessages_def)
  from r show "created_ids (events s') = created_ids (events s) @ [getTotalMessages s]"
    by (simp add: getTotalMessages_def created_ids_append)
qed

theorem C1_monotonic_dense_ids_witness:
  "created_ids (events (run mock_fhe mixed_history (deployed []))) = [0, 1, 2]
   \<and> getTotalMessages (run mock_fhe mixed_history (deployed [])) = 3
   \<and> successful_creates mock_fhe mixed_history (deployed []) = 3
   \<and> (\<exists>s'. submitMessage mock_fhe alice 100 7 [1] (deployed []) = Inr s'
         \<and> getTotalMessages s' = 1 \<and> created_ids (events s') = [0])"
proof -
  have n: "successful_creates mock_fhe mixed_history (deployed []) = 3"
    by (simp add: successful_creates_def ledger_defs loop_defs)
  have tot: "getTotalMessages (run mock_fhe mixed_history (deployed [])) = 3"
    by (simp add: ledger_defs loop_defs)
  have upt: "map of_nat [0..<3] = [0, 1, 2 :: uint256]"
    by (simp add: upt_rec)
  obtain s' where sub: "submitMessage mock_fhe alice 100 7 [1] (deployed []) = Inr s'"
    by (simp add: ledger_defs)
  have d: "getTotalMessages (deployed ([] :: (euint32 \<times> address) list)) = 0"
    "created_ids (events (deployed ([] :: (euint32 \<times> address) list))) = []"
    by (simp_all add: ledger_defs)
  note inst = C1_monotonic_dense_ids [of mock_fhe mixed_history "[]"]
  note step = conjunct2 [OF conjunct2 [OF inst], rule_format, OF sub]
  from step d sub have "\<exists>s'. submitMessage mock_fhe alice 100 7 [1] (deployed []) = Inr s'
         \<and> getTotalMessages s' = 1 \<and> created_ids (events s') = [0]"
    by simp
  with inst n tot upt show ?thesis
    by simp
qed


subsection \<open>The life of a record\<close>

lemma uint256_less_Suc: "(x::uint256) + 1 \<noteq> 0 \<Longrightarrow> i < x + 1 \<longleftrightarrow> i \<le> x"
  by (auto simp: word_less_nat_alt word_le_nat_alt uint256_Suc)

text \<open>The three answers of \<open>isMessageActive\<close>: \<open>(False, False)\<close> for an id that does not
  exist, \<open>(True, True)\<close> for an active record, \<open>(True, False)\<close> for a deleted one.\<close>

lemma isMessageActive_cases:
  "isMessageActive s i = (False, False) \<longleftrightarrow> totalMessages s \<le> i"
  "isMessageActive s i = (True, True) \<longleftrightarrow> i < totalMessages s \<and> isActive (messages s i)"
  "isMessageActive s i = (True, False) \<longleftrightarrow> i < totalMessages s \<and> \<not> isActive (messages s i)"
  by (auto simp: isMessageActive_def not_le)

lemma execute_stays_deleted:
  assumes "i < totalMessages s" "\<not> isActive (messages s i)"
  shows "i < totalMessages (snd (execute fhe t s))
    \<and> \<not> isActive (messages (snd (execute fhe t s)) i)"
  using assms execute_total_mono [of s fhe t] execute_record [OF assms(1), of fhe t]
  by (simp add: word_less_nat_alt)

lemma execute_deactivates:
  assumes "i < totalMessages s" "isActive (messages s i)"
    and "\<not> (i < totalMessages (snd (execute fhe t s))
           \<and> isActive (messages (snd (execute fhe t s)) i))"
  shows "i < totalMessages (snd (execute fhe t s))
    \<and> \<not> isActive (messages (snd (execute fhe t s)) i)
    \<and> t = (sender (messages s i), fst (snd t), DeleteMessage i)
    \<and> fst (execute fhe t s) = Inr Unit"
proof (cases rule: execute_cases [of fhe t s])
  case unchanged
  with assms show ?thesis by simp
next
  case (submitted a ts h p s')
  have lt: "i < totalMessages (snd (execute fhe t s))"
    using assms(1) execute_total_mono [of s fhe t] by (simp add: word_less_nat_alt)
  have "i \<noteq> totalMessages s" using assms(1) by auto
  with submitMessage_Inr [OF submitted(2)] have "messages s' i = messages s i"
    by auto
  with assms lt submitted(3) show ?thesis by simp
next
  case (deleted a ts j s')
  note r = deleteMessage_Inr [OF deleted(2)]
  have s': "snd (execute fhe t s) = s'" using deleted(3) by simp
  have tot: "totalMessages s' = totalMessages s" using r by simp
  have "j = i"
  proof (rule ccontr)
    assume "j \<noteq> i"
    with r have "messages s' i = messages s i" by simp
    with assms tot s' show False by simp
  qed
  with r have "\<not> isActive (messages s' i)" "sender (messages s i) = a" by simp_all
  with assms(1) tot s' deleted(1,3) \<open>j = i\<close> show ?thesis by simp
qed

lemma execute_creates:
  assumes "totalMessages s \<le> i" "\<not> totalMessages (snd (execute fhe t s)) \<le> i"
  shows "i < totalMessages (snd (execute fhe t s))
    \<and> isActive (messages (snd (execute fhe t s)) i)
    \<and> is_submit t \<and> fst (execute fhe t s) = Inr Unit \<and> i = totalMessages s"
proof (cases rule: execute_cases [of fhe t s])
  case unchanged
  with assms show ?thesis by simp
next
  case (submitted a ts h p s')
  note r = submitMessage_Inr [OF submitted(2)]
  have s': "snd (execute fhe t s) = s'" using submitted(3) by simp
  from assms(2) have "i < totalMessages s'" by (simp add: s' not_le)
  with r have "i \<le> totalMessages s" by (simp add: uint256_less_Suc)
  with assms(1) have i: "i = totalMessages s" by simp
  with r have "isActive (messages s' i)" by auto
  with \<open>i < totalMessages s'\<close> i s' submitted(1,3) show ?thesis by simp
next
  case (deleted a ts j s')
  from deleteMessage_Inr [OF deleted(2)] have "totalMessages s' = totalMessages s" by simp
  with assms deleted(3) show ?thesis by simp
qed

lemma execute_status:
  "(isMessageActive s i = (True, False) \<longrightarrow>
      isMessageActive (snd (execute fhe t s)) i = (True, False))
   \<and> (isMessageActive s i = (True, True)
        \<and> isMessageActive (snd (execute fhe t s)) i \<noteq> (True, True) \<longrightarrow>
      isMessageActive (snd (execute fhe t s)) i = (True, False)
      \<and> t = (sender (messages s i), fst (snd t), DeleteMessage i)
      \<and> fst (execute fhe t s) = Inr Unit)
   \<and> (isMessageActive s i = (False, False)
        \<and> isMessageActive (snd (execute fhe t s)) i \<noteq> (False, False) \<longrightarrow>
      isMessageActive (snd (execute fhe t s)) i = (True, True)
      \<and> is_submit t \<and> fst (execute fhe t s) = Inr Unit \<and> i = totalMessages s)"
  unfolding isMessageActive_cases
  using execute_stays_deleted [of i s fhe t] execute_deactivates [of i s fhe t]
    execute_creates [of s i fhe t]
  by blast

text \<open>
  C7. The active flag of a record only ever goes from true to false. For every
  transaction of the ledger, whichever of the nine functions it calls: a deleted record
  stays deleted, after one transaction and after any number; an active record that stops
  being active has become deleted, by a successful \<open>deleteMessage\<close> of that id sent by
  the record's sender; an id that starts to exist is the old total count, created active
  by a successful \<open>submitMessage\<close>. In the deployed contract no id exists.
\<close>

theorem C7_active_flag_monotone:
  "(isMessageActive s i = (True, False) \<longrightarrow>
      isMessageActive (snd (execute fhe t s)) i = (True, False)
      \<and> (\<forall>txs. isMessageActive (run fhe txs s) i = (True, False)))
   \<and> (isMessageActive s i = (True, True)
        \<and> isMessageActive (snd (execute fhe t s)) i \<noteq> (True, True) \<longrightarrow>
      isMessageActive (snd (execute fhe t s)) i = (True, False)
      \<and> t = (sender (messages s i), fst (snd t), DeleteMessage i)
      \<and> fst (execute fhe t s) = Inr Unit)
   \<and> (isMessageActive s i = (False, False)
        \<and> isMessageActive (snd (execute fhe t s)) i \<noteq> (False, False) \<longrightarrow>
      isMessageActive (snd (execute fhe t s)) i = (True, True)
      \<and> is_submit t \<and> fst (execute fhe t s) = Inr Unit \<and> i = getTotalMessages s)
   \<and> isMessageActive (deployed w) i = (False, False)"
proof -
  have many: "isMessageActive (run fhe txs s) i = (True, False)"
    if "isMessageActive s i = (True, False)" for txs
    using that run_record [of i s fhe txs] by (simp add: isMessageActive_cases)
  have "isMessageActive (deployed w) i = (False, False)"
    by (simp add: isMessageActive_def deployed_def)
  note dep = this
  note st = execute_status [of s i fhe t]
  show ?thesis
    unfolding getTotalMessages_def
  proof (intro conjI)
    show "isMessageActive s i = (True, False) \<longrightarrow>
      isMessageActive (snd (execute fhe t s)) i = (True, False)
      \<and> (\<forall>txs. isMessageActive (run fhe txs s) i = (True, False))"
      using st [THEN conjunct1] many by blast
    show "isMessageActive s i = (True, True)
        \<and> isMessageActive (snd (execute fhe t s)) i \<noteq> (True, True) \<longrightarrow>
      isMessageActive (snd (execute fhe t s)) i = (True, False)
      \<and> t = (sender (messages s i), fst (snd t), DeleteMessage i)
      \<and> fst (execute fhe t s) = Inr Unit"
      by (rule st [THEN conjunct2, THEN conjunct1])
    show "isMessageActive s i = (False, False)
        \<and> isMessageActive (snd (execute fhe t s)) i \<noteq> (False, False) \<longrightarrow>
      isMessageActive (snd (execute fhe t s)) i = (True, True)
      \<and> is_submit t \<and> fst (execute fhe t s) = Inr Unit \<and> i = totalMessages s"
      by (rule st [THEN conjunct2, THEN conjunct2])
    show "isMessageActive (deployed w) i = (False, False)"
      by (rule dep)
  qed
qed

theorem C7_active_flag_monotone_witness:
  "isMessageActive (run mock_fhe mixed_history (deployed [])) 0 = (True, False)
   \<and> isMessageActive (run mock_fhe three_by_alice (run mock_fhe mixed_history (deployed []))) 0
       = (True, False)
   \<and> isMessageActive (run mock_fhe three_by_alice (deployed [])) 2 = (True, True)
   \<and> isMessageActive (snd (execute mock_fhe (alice, 200, DeleteMessage 2)
        (run mock_fhe three_by_alice (deployed [])))) 2 = (True, False)
   \<and> isMessageActive (run mock_fhe three_by_alice (deployed [])) 3 = (False, False)
   \<and> isMessageActive (snd (execute mock_fhe (bob, 200, SubmitMessage 5 [1])
        (run mock_fhe three_by_alice (deployed [])))) 3 = (True, True)"
proof -
  let ?m = "run mock_fhe mixed_history (deployed [])"
  let ?s = "run mock_fhe three_by_alice (deployed [])"
  have m0: "isMessageActive ?m 0 = (True, False)"
    by (simp add: ledger_defs loop_defs)
  have s2: "isMessageActive ?s 2 = (True, True)"
    and s3: "isMessageActive ?s 3 = (False, False)"
    by (simp_all add: ledger_defs)
  have d2: "isMessageActive (snd (execute mock_fhe (alice, 200, DeleteMessage 2) ?s)) 2 \<noteq> (True, True)"
    and c3: "isMessageActive (snd (execute mock_fhe (bob, 200, SubmitMessage 5 [1]) ?s)) 3 \<noteq> (False, False)"
    by (simp_all add: ledger_defs)
  note A = C7_active_flag_monotone [of ?m 0 mock_fhe "(alice, 0, GetTotalMessages)" "[]",
      THEN conjunct1, rule_format, OF m0, THEN conjunct2, rule_format, of three_by_alice]
  note B = C7_active_flag_monotone [of ?s 2 mock_fhe "(alice, 200, DeleteMessage 2)" "[]",
      THEN conjunct2, THEN conjunct1, rule_format, OF conjI, OF s2 d2, THEN conjunct1]
  note C = C7_active_flag_monotone [of ?s 3 mock_fhe "(bob, 200, SubmitMessage 5 [1])" "[]",
      THEN conjunct2, THEN conjunct2, THEN conjunct1, rule_format, OF conjI, OF s3 c3,
      THEN conjunct1]
  from m0 A s2 B s3 C show ?thesis
    by (intro conjI)
qed


subsection \<open>The index of each sender\<close>

text \<open>The ids below a counter, in increasing order.\<close>

lemma unat_of_nat_below: "k < unat (x::uint256) \<Longrightarrow> unat (of_nat k :: uint256) = k"
proof -
  assume "k < unat x"
  moreover have "unat x < 2 ^ LENGTH(256)" by (rule unsigned_less)
  ultimately have "k < 2 ^ LENGTH(256)" by (rule less_trans)
  then show ?thesis by (simp add: unat_of_nat)
qed

lemma set_ids_below: "set (map of_nat [0..<unat (x::uint256)]) = {i. i < x}"
proof (intro set_eqI iffI)
  fix i :: uint256
  assume "i \<in> set (map of_nat [0..<unat x])"
  then obtain k where "k < unat x" "i = of_nat k" by auto
  then show "i \<in> {i. i < x}" by (simp add: word_less_nat_alt unat_of_nat_below)
next
  fix i :: uint256
  assume "i \<in> {i. i < x}"
  then have "unat i < unat x" by (simp add: word_less_nat_alt)
  moreover have "of_nat (unat i) = i" by simp
  ultimately show "i \<in> set (map of_nat [0..<unat x])"
    by (metis atLeastLessThan_iff image_eqI le0 set_map set_upt)
qed

lemma distinct_ids_below: "distinct (map of_nat [0..<unat (x::uint256)] :: uint256 list)"
proof (rule iffD2 [OF distinct_map], intro conjI)
  show "distinct [0..<unat x]" by simp
  show "inj_on (of_nat :: nat \<Rightarrow> uint256) (set [0..<unat x])"
  proof (rule inj_onI)
    fix j k
    assume j: "j \<in> set [0..<unat x]" and k: "k \<in> set [0..<unat x]"
      and eq: "(of_nat j :: uint256) = of_nat k"
    have "j = unat (of_nat j :: uint256)" using j by (simp add: unat_of_nat_below)
    also have "\<dots> = unat (of_nat k :: uint256)" by (simp only: eq)
    also have "\<dots> = k" using k by (simp add: unat_of_nat_below)
    finally show "j = k" .
  qed
qed

text \<open>The index of a sender holds the ids, in increasing order, of the records whose
  sender field is that sender; a transaction keeps it so.\<close>

lemma execute_index:
  assumes "userMessages s u =
      filter (\<lambda>i. sender (messages s i) = u) (map of_nat [0..<unat (totalMessages s)])"
  shows "userMessages (snd (execute fhe t s)) u =
      filter (\<lambda>i. sender (messages (snd (execute fhe t s)) i) = u)
        (map of_nat [0..<unat (totalMessages (snd (execute fhe t s)))])"
proof (cases rule: execute_cases [of fhe t s])
  case unchanged
  with assms show ?thesis by simp
next
  case (submitted a ts h p s')
  note r = submitMessage_Inr [OF submitted(2)]
  have s': "snd (execute fhe t s) = s'" using submitted(3) by simp
  let ?old = "map of_nat [0..<unat (totalMessages s)] :: uint256 list"
  have n: "unat (totalMessages s') = Suc (unat (totalMessages s))"
    using r by (simp add: uint256_Suc)
  have ids: "map of_nat [0..<unat (totalMessages s')] = ?old @ [totalMessages s]"
    by (simp add: n)
  have old: "filter (\<lambda>i. sender (messages s' i) = u) ?old
      = filter (\<lambda>i. sender (messages s i) = u) ?old"
  proof (rule filter_cong [OF refl])
    fix i assume "i \<in> set ?old"
    then have "i < totalMessages s" by (simp only: set_ids_below mem_Collect_eq)
    then have "i \<noteq> totalMessages s" by auto
    with r have "messages s' i = messages s i" by auto
    then show "(sender (messages s' i) = u) = (sender (messages s i) = u)" by simp
  qed
  have new: "sender (messages s' (totalMessages s)) = a" using r by auto
  have "userMessages s' u = (if a = u then userMessages s u @ [totalMessages s]
      else userMessages s u)"
    using r by auto
  then show ?thesis
    unfolding s' ids filter_append old using new assms by simp
next
  case (deleted a ts j s')
  from deleteMessage_Inr [OF deleted(2)] have "totalMessages s' = totalMessages s"
    "userMessages s' = userMessages s" "\<And>i. sender (messages s' i) = sender (messages s i)"
    by simp_all
  with assms deleted(3) show ?thesis by simp
qed

lemma execute_created_by:
  assumes "userMessages s u = created_by u (events s)"
  shows "userMessages (snd (execute fhe t s)) u = created_by u (events (snd (execute fhe t s)))"
proof (cases rule: execute_cases [of fhe t s])
  case unchanged
  with assms show ?thesis by simp
next
  case (submitted a ts h p s')
  from submitMessage_Inr [OF submitted(2)] assms submitted(3) show ?thesis
    by (auto simp: created_by_append)
next
  case (deleted a ts j s')
  from deleteMessage_Inr [OF deleted(2)] assms deleted(3) show ?thesis
    by (simp add: created_by_append)
qed

lemma run_index:
  assumes "userMessages s u =
      filter (\<lambda>i. sender (messages s i) = u) (map of_nat [0..<unat (totalMessages s)])"
  shows "userMessages (run fhe txs s) u =
      filter (\<lambda>i. sender (messages (run fhe txs s) i) = u)
        (map of_nat [0..<unat (totalMessages (run fhe txs s))])"
  using assms
proof (induction txs arbitrary: s)
  case Nil
  then show ?case by simp
next
  case (Cons t txs)
  from Cons.IH [OF execute_index [OF Cons.prems]] show ?case by simp
qed

lemma run_created_by:
  assumes "userMessages s u = created_by u (events s)"
  shows "userMessages (run fhe txs s) u = created_by u (events (run fhe txs s))"
  using assms
proof (induction txs arbitrary: s)
  case Nil
  then show ?case by simp
next
  case (Cons t txs)
  from Cons.IH [OF execute_created_by [OF Cons.prems]] show ?case by simp
qed

lemma reachable_index:
  "userMessages (run fhe txs (deployed w)) u =
      filter (\<lambda>i. sender (messages (run fhe txs (deployed w)) i) = u)
        (map of_nat [0..<unat (totalMessages (run fhe txs (deployed w)))])"
  by (rule run_index) (simp add: deployed_def)

lemma reachable_created_by:
  "userMessages (run fhe txs (deployed w)) u = created_by u (events (run fhe txs (deployed w)))"
  by (rule run_created_by) (simp add: deployed_def)

lemma reachable_index_valid:
  "i \<in> set (userMessages (run fhe txs (deployed w)) u) \<longleftrightarrow>
     i < totalMessages (run fhe txs (deployed w))
     \<and> sender (messages (run fhe txs (deployed w)) i) = u"
proof -
  let ?s = "run fhe txs (deployed w)"
  have "set (userMessages ?s u) =
      {i \<in> set (map of_nat [0..<unat (totalMessages ?s)]). sender (messages ?s i) = u}"
    by (simp only: reachable_index [of fhe txs w u] set_filter)
  then show ?thesis by (simp only: set_ids_below) auto
qed

lemma reachable_index_length:
  "length (userMessages (run fhe txs (deployed w)) u) \<le> unat (totalMessages (run fhe txs (deployed w)))"
proof -
  let ?s = "run fhe txs (deployed w)"
  have "length (userMessages ?s u) \<le> length (map of_nat [0..<unat (totalMessages ?s)] :: uint256 list)"
    by (simp only: reachable_index [of fhe txs w u] length_filter_le)
  then show ?thesis by simp
qed

text \<open>
  C8. In every state reached from the deployed contract, \<open>getUserMessages\<close> of a sender is
  the list of ids of the \<open>MessageSubmitted\<close> events of that sender, in the order of
  creation, which is the list of ids below the total count whose record names that
  sender, in increasing order. No id occurs twice, no id of another sender's record
  occurs, and every id of the sender's records occurs, deleted or not.
  \<open>getMessageCount\<close>, read as a number, is the length of that list, and is zero for a
  sender with no \<open>MessageSubmitted\<close> event.
\<close>

theorem C8_ownership_index:
  "(let s = run fhe txs (deployed w) in
     getUserMessages s u = created_by u (events s)
     \<and> getUserMessages s u =
         filter (\<lambda>i. sender (messages s i) = u) (map of_nat [0..<unat (getTotalMessages s)])
     \<and> distinct (getUserMessages s u)
     \<and> (\<forall>i. i \<in> set (getUserMessages s u) \<longleftrightarrow>
            i < getTotalMessages s \<and> sender (messages s i) = u)
     \<and> (\<forall>u'. u' \<noteq> u \<longrightarrow> set (getUserMessages s u) \<inter> set (getUserMessages s u') = {})
     \<and> unat (getMessageCount s u) = length (getUserMessages s u)
     \<and> (created_by u (events s) = [] \<longrightarrow> getMessageCount s u = 0))"
proof -
  define s where "s = run fhe txs (deployed w)"
  have ev: "getUserMessages s u = created_by u (events s)"
    unfolding s_def getUserMessages_def by (rule reachable_created_by)
  have ix: "getUserMessages s u =
      filter (\<lambda>i. sender (messages s i) = u) (map of_nat [0..<unat (getTotalMessages s)])"
    unfolding s_def getUserMessages_def getTotalMessages_def by (rule reachable_index)
  have di: "distinct (getUserMessages s u)"
    unfolding ix getTotalMessages_def by (rule distinct_filter [OF distinct_ids_below])
  have mem: "i \<in> set (getUserMessages s v) \<longleftrightarrow>
      i < getTotalMessages s \<and> sender (messages s i) = v" for i v
    unfolding s_def getUserMessages_def getTotalMessages_def by (rule reachable_index_valid)
  have dj: "set (getUserMessages s u) \<inter> set (getUserMessages s u') = {}" if "u' \<noteq> u" for u'
    using that mem [of _ u] mem [of _ u'] by auto
  have "length (userMessages s u) \<le> unat (totalMessages s)"
    unfolding s_def by (rule reachable_index_length)
  moreover have "unat (totalMessages s) < 2 ^ LENGTH(256)"
    by (rule unsigned_less)
  ultimately have "length (userMessages s u) < 2 ^ LENGTH(256)"
    by (rule le_less_trans)
  then have cnt: "unat (getMessageCount s u) = length (getUserMessages s u)"
    by (simp add: getMessageCount_def getUserMessages_def unat_of_nat)
  have zero: "getMessageCount s u = 0" if "created_by u (events s) = []"
    using that ev by (simp add: getMessageCount_def getUserMessages_def)
  from ev ix di mem dj cnt zero show ?thesis
    unfolding Let_def s_def [symmetric] by blast
qed

theorem C8_ownership_index_witness:
  "getUserMessages (run mock_fhe mixed_history (deployed [])) alice = [0, 2]
   \<and> created_by alice (events (run mock_fhe mixed_history (deployed []))) = [0, 2]
   \<and> isMessageActive (run mock_fhe mixed_history (deployed [])) 0 = (True, False)
   \<and> getUserMessages (run mock_fhe mixed_history (deployed [])) bob = [1]
   \<and> bob \<noteq> alice
   \<and> unat (getMessageCount (run mock_fhe mixed_history (deployed [])) alice) = 2
   \<and> created_by 0 (events (run mock_fhe mixed_history (deployed []))) = []
   \<and> getMessageCount (run mock_fhe mixed_history (deployed [])) 0 = 0"
proof -
  let ?s = "run mock_fhe mixed_history (deployed [])"
  have ev: "created_by alice (events ?s) = [0, 2]" "created_by bob (events ?s) = [1]"
    "created_by 0 (events ?s) = []"
    and st: "isMessageActive ?s 0 = (True, False)"
    and ne: "bob \<noteq> alice"
    by (simp_all add: ledger_defs loop_defs)
  note a = C8_ownership_index [of mock_fhe mixed_history "[]" alice, unfolded Let_def]
  note b = C8_ownership_index [of mock_fhe mixed_history "[]" bob, unfolded Let_def]
  note z = C8_ownership_index [of mock_fhe mixed_history "[]" 0, unfolded Let_def]
  have ga: "getUserMessages ?s alice = [0, 2]" using a ev(1) by simp
  have gb: "getUserMessages ?s bob = [1]" using b ev(2) by simp
  have ca: "unat (getMessageCount ?s alice) = 2" using a ga by simp
  have cz: "getMessageCount ?s 0 = 0" using z ev(3) by blast
  from ga ev(1) st gb ne ca ev(3) cz show ?thesis by (intro conjI)
qed


subsection \<open>The array views\<close>

lemma take_Suc_update:
  "i < length xs \<Longrightarrow> take (Suc i) (xs[i := v]) = take i xs @ [v]"
  by (simp add: take_Suc_conv_app_nth)

text \<open>One iteration of the loop of \<open>getMessagesBatch\<close>, when the arrays have the length of
  the input.\<close>

lemma batch_body_step:
  assumes "i < length ids" "length ts = length ids" "length ss = length ids"
    "length as = length ids"
  shows "batch_body s ids i (ts, ss, as) =
    (if ids ! i < totalMessages s
     then Inr (ts[i := timestamp (messages s (ids ! i))],
               ss[i := sender (messages s (ids ! i))],
               as[i := isActive (messages s (ids ! i))])
     else Inl NotFound)"
  using assms by (simp add: batch_body_def mload_def mstore_def Let_def)

text \<open>The loop from \<open>i\<close> on: it keeps what the arrays hold below \<open>i\<close> and fills in the
  rest from the records, unless one of the remaining ids is not below the total count.\<close>

lemma batch_loop:
  assumes "i \<le> length ids" "length ts = length ids" "length ss = length ids"
    "length as = length ids"
  shows "for_loop i (length ids) (batch_body s ids) (ts, ss, as) =
    (if \<forall>m \<in> set (drop i ids). m < totalMessages s
     then Inr (take i ts @ map (\<lambda>m. timestamp (messages s m)) (drop i ids),
               take i ss @ map (\<lambda>m. sender (messages s m)) (drop i ids),
               take i as @ map (\<lambda>m. isActive (messages s m)) (drop i ids))
     else Inl NotFound)"
  using assms
proof (induction "length ids - i" arbitrary: i ts ss as)
  case 0
  then have "i = length ids" by simp
  with 0 show ?case by (simp add: for_loop.simps)
next
  case (Suc n)
  then have lt: "i < length ids" by simp
  note dr = Cons_nth_drop_Suc [OF lt, symmetric]
  show ?case
  proof (cases "ids ! i < totalMessages s")
    case False
    have "for_loop i (length ids) (batch_body s ids) (ts, ss, as) = Inl NotFound"
      using lt False Suc.prems by (subst for_loop.simps) (simp add: batch_body_step)
    moreover have "\<not> (\<forall>m \<in> set (drop i ids). m < totalMessages s)"
      using False by (simp add: dr)
    ultimately show ?thesis by simp
  next
    case True
    let ?ts = "ts[i := timestamp (messages s (ids ! i))]"
    let ?ss = "ss[i := sender (messages s (ids ! i))]"
    let ?as = "as[i := isActive (messages s (ids ! i))]"
    have "for_loop i (length ids) (batch_body s ids) (ts, ss, as)
        = for_loop (Suc i) (length ids) (batch_body s ids) (?ts, ?ss, ?as)"
      using lt True Suc.prems by (subst for_loop.simps) (simp add: batch_body_step)
    also have "\<dots> =
      (if \<forall>m \<in> set (drop (Suc i) ids). m < totalMessages s
       then Inr (take (Suc i) ?ts @ map (\<lambda>m. timestamp (messages s m)) (drop (Suc i) ids),
                 take (Suc i) ?ss @ map (\<lambda>m. sender (messages s m)) (drop (Suc i) ids),
                 take (Suc i) ?as @ map (\<lambda>m. isActive (messages s m)) (drop (Suc i) ids))
       else Inl NotFound)"
      using Suc.hyps(2) lt Suc.prems by (intro Suc.hyps(1)) simp_all
    also have "\<dots> =
      (if \<forall>m \<in> set (drop i ids). m < totalMessages s
       then Inr (take i ts @ map (\<lambda>m. timestamp (messages s m)) (drop i ids),
                 take i ss @ map (\<lambda>m. sender (messages s m)) (drop i ids),
                 take i as @ map (\<lambda>m. isActive (messages s m)) (drop i ids))
       else Inl NotFound)"
      using lt True Suc.prems by (simp add: dr take_Suc_update)
    finally show ?thesis .
  qed
qed

lemma getMessagesBatch_eq:
  "getMessagesBatch s ids =
    (if \<forall>m \<in> set ids. m < totalMessages s
     then Inr (map (\<lambda>m. timestamp (messages s m)) ids,
               map (\<lambda>m. sender (messages s m)) ids,
               map (\<lambda>m. isActive (messages s m)) ids)
     else Inl NotFound)"
  using batch_loop [of 0 ids "replicate (length ids) 0" "replicate (length ids) 0"
      "replicate (length ids) False" s]
  by (simp add: getMessagesBatch_def Let_def)

text \<open>
  C3. \<open>getMessagesBatch\<close> is all or nothing. If some id of the input is not below the
  total count, the call fails with \<open>NotFound\<close> and returns nothing. If every id is below
  it, the call returns three arrays as long as the input, whose entries at each position
  are the timestamp, sender and active flag of the record named there, so in input order
  and with a repeated id giving the same row again. The empty input gives three empty
  arrays. The call leaves the state as it was.
\<close>

theorem C3_batch_all_or_nothing:
  "((\<exists>m \<in> set ids. totalMessages s \<le> m) \<longrightarrow> getMessagesBatch s ids = Inl NotFound)
   \<and> ((\<forall>m \<in> set ids. m < totalMessages s) \<longrightarrow>
        (\<exists>timestamps senders activeStatuses.
           getMessagesBatch s ids = Inr (timestamps, senders, activeStatuses)
           \<and> length timestamps = length ids
           \<and> length senders = length ids
           \<and> length activeStatuses = length ids
           \<and> (\<forall>k < length ids.
                 timestamps ! k = timestamp (messages s (ids ! k))
                 \<and> senders ! k = sender (messages s (ids ! k))
                 \<and> activeStatuses ! k = isActive (messages s (ids ! k)))))
   \<and> getMessagesBatch s [] = Inr ([], [], [])
   \<and> snd (execute fhe (a, t, GetMessagesBatch ids) s) = s"
proof (intro conjI impI)
  assume "\<exists>m \<in> set ids. totalMessages s \<le> m"
  then have "\<not> (\<forall>m \<in> set ids. m < totalMessages s)" by (auto simp: not_less)
  then show "getMessagesBatch s ids = Inl NotFound"
    by (simp only: getMessagesBatch_eq if_False)
next
  assume "\<forall>m \<in> set ids. m < totalMessages s"
  then have "getMessagesBatch s ids =
      Inr (map (\<lambda>m. timestamp (messages s m)) ids,
           map (\<lambda>m. sender (messages s m)) ids,
           map (\<lambda>m. isActive (messages s m)) ids)"
    by (simp add: getMessagesBatch_eq)
  then show "\<exists>timestamps senders activeStatuses.
           getMessagesBatch s ids = Inr (timestamps, senders, activeStatuses)
           \<and> length timestamps = length ids
           \<and> length senders = length ids
           \<and> length activeStatuses = length ids
           \<and> (\<forall>k < length ids.
                 timestamps ! k = timestamp (messages s (ids ! k))
                 \<and> senders ! k = sender (messages s (ids ! k))
                 \<and> activeStatuses ! k = isActive (messages s (ids ! k)))"
    by simp
next
  show "getMessagesBatch s [] = Inr ([], [], [])"
    by (simp add: getMessagesBatch_eq)
  show "snd (execute fhe (a, t, GetMessagesBatch ids) s) = s"
    by (simp split: sum.splits)
qed

theorem C3_batch_all_or_nothing_witness:
  "getMessagesBatch (run mock_fhe mixed_history (deployed [])) [0, 1, 3] = Inl NotFound
   \<and> (\<exists>ts ss as. getMessagesBatch (run mock_fhe mixed_history (deployed [])) [2, 0, 2]
          = Inr (ts, ss, as)
        \<and> length ts = 3 \<and> length ss = 3 \<and> length as = 3
        \<and> ts ! 0 = 104 \<and> ss ! 0 = alice \<and> as ! 0 = True
        \<and> ts ! 1 = 100 \<and> ss ! 1 = alice \<and> as ! 1 = False)
   \<and> getMessagesBatch (run mock_fhe mixed_history (deployed [])) [] = Inr ([], [], [])"
proof -
  let ?s = "run mock_fhe mixed_history (deployed [])"
  have tot: "totalMessages ?s = 3"
    and m0: "messages ?s 0 = \<lparr>encryptedContent = 7, timestamp = 100, sender = alice, isActive = False\<rparr>"
    and m2: "messages ?s 2 = \<lparr>encryptedContent = 9, timestamp = 104, sender = alice, isActive = True\<rparr>"
    by (simp_all add: ledger_defs loop_defs)
  have bad: "\<exists>m \<in> set [0, 1, 3]. totalMessages ?s \<le> m"
    and good: "\<forall>m \<in> set [2, 0, 2]. m < totalMessages ?s"
    by (simp_all add: tot)
  note A = C3_batch_all_or_nothing [of "[0, 1, 3]" ?s mock_fhe alice 0,
      THEN conjunct1, THEN mp, OF bad]
  from C3_batch_all_or_nothing [of "[2, 0, 2]" ?s mock_fhe alice 0,
      THEN conjunct2, THEN conjunct1, THEN mp, OF good]
  obtain ts ss as where r: "getMessagesBatch ?s [2, 0, 2] = Inr (ts, ss, as)"
    and len: "length ts = 3" "length ss = 3" "length as = 3"
    and row: "\<forall>k < 3. ts ! k = timestamp (messages ?s ([2, 0, 2] ! k))
        \<and> ss ! k = sender (messages ?s ([2, 0, 2] ! k))
        \<and> as ! k = isActive (messages ?s ([2, 0, 2] ! k))"
    by auto
  from row [rule_format, of 0] row [rule_format, of 1]
  have "ts ! 0 = 104" "ss ! 0 = alice" "as ! 0 = True"
    "ts ! 1 = 100" "ss ! 1 = alice" "as ! 1 = False"
    by (simp_all add: m0 m2)
  with r len have B: "\<exists>ts ss as. getMessagesBatch ?s [2, 0, 2] = Inr (ts, ss, as)
        \<and> length ts = 3 \<and> length ss = 3 \<and> length as = 3
        \<and> ts ! 0 = 104 \<and> ss ! 0 = alice \<and> as ! 0 = True
        \<and> ts ! 1 = 100 \<and> ss ! 1 = alice \<and> as ! 1 = False"
    by blast
  note C = C3_batch_all_or_nothing [of "[]" ?s mock_fhe alice 0,
      THEN conjunct2, THEN conjunct2, THEN conjunct1]
  from A B C show ?thesis by (intro conjI)
qed

text \<open>The loop of \<open>getUserMessageMetadata\<close>: one iteration, then from \<open>i\<close> on. It has no
  \<^verbatim>\<open>require\<close> and every index it uses is in range, so it never fails.\<close>

lemma metadata_body_step:
  assumes "i < length ids" "length ts = length ids" "length ms = length ids"
    "length as = length ids"
  shows "metadata_body s ids i (ts, ms, as) =
    Inr (ts[i := timestamp (messages s (ids ! i))],
         ms[i := ids ! i],
         as[i := isActive (messages s (ids ! i))])"
  using assms by (simp add: metadata_body_def mload_def mstore_def Let_def)

lemma metadata_loop:
  assumes "i \<le> length ids" "length ts = length ids" "length ms = length ids"
    "length as = length ids"
  shows "for_loop i (length ids) (metadata_body s ids) (ts, ms, as) =
    Inr (take i ts @ map (\<lambda>m. timestamp (messages s m)) (drop i ids),
         take i ms @ drop i ids,
         take i as @ map (\<lambda>m. isActive (messages s m)) (drop i ids))"
  using assms
proof (induction "length ids - i" arbitrary: i ts ms as)
  case 0
  then have "i = length ids" by simp
  with 0 show ?case by (simp add: for_loop.simps)
next
  case (Suc n)
  then have lt: "i < length ids" by simp
  note dr = Cons_nth_drop_Suc [OF lt, symmetric]
  let ?ts = "ts[i := timestamp (messages s (ids ! i))]"
  let ?ms = "ms[i := ids ! i]"
  let ?as = "as[i := isActive (messages s (ids ! i))]"
  have "for_loop i (length ids) (metadata_body s ids) (ts, ms, as)
      = for_loop (Suc i) (length ids) (metadata_body s ids) (?ts, ?ms, ?as)"
    using lt Suc.prems by (subst for_loop.simps) (simp add: metadata_body_step)
  also have "\<dots> =
    Inr (take (Suc i) ?ts @ map (\<lambda>m. timestamp (messages s m)) (drop (Suc i) ids),
         take (Suc i) ?ms @ drop (Suc i) ids,
         take (Suc i) ?as @ map (\<lambda>m. isActive (messages s m)) (drop (Suc i) ids))"
    using Suc.hyps(2) lt Suc.prems by (intro Suc.hyps(1)) simp_all
  also have "\<dots> =
    Inr (take i ts @ map (\<lambda>m. timestamp (messages s m)) (drop i ids),
         take i ms @ drop i ids,
         take i as @ map (\<lambda>m. isActive (messages s m)) (drop i ids))"
    using lt Suc.prems by (simp add: dr take_Suc_update)
  finally show ?case .
qed

lemma getUserMessageMetadata_eq:
  "getUserMessageMetadata s u =
    Inr (map (\<lambda>m. timestamp (messages s m)) (userMessages s u),
         userMessages s u,
         map (\<lambda>m. isActive (messages s m)) (userMessages s u))"
  using metadata_loop [of 0 "userMessages s u" "replicate (length (userMessages s u)) 0"
      "replicate (length (userMessages s u)) 0" "replicate (length (userMessages s u)) False" s]
  by (simp add: getUserMessageMetadata_def Let_def)


lemma map_getMessage_valid:
  "\<forall>m \<in> set ids. m < totalMessages s \<Longrightarrow>
   map_getMessage s ids =
     Inr (map (\<lambda>m. (timestamp (messages s m), m, isActive (messages s m))) ids)"
  by (induction ids) (simp_all add: getMessage_def Let_def)

lemma zip_rows:
  "zip (map f xs) (zip xs (map g xs)) = map (\<lambda>m. (f m, m, g m)) xs"
  by (induction xs) simp_all

text \<open>
  C4. In every state reached from the deployed contract and for every sender,
  \<open>getUserMessageMetadata\<close> succeeds and returns three arrays as long as
  \<open>getUserMessages\<close> of that sender; the rows they form are what mapping \<open>getMessage\<close>
  over \<open>getUserMessages\<close> gives, projected to timestamp, id and active flag: at every
  position \<open>getMessage\<close> of the listed id succeeds with that timestamp and that flag.
\<close>

theorem C4_metadata_equals_getMessage:
  "(let s = run fhe txs (deployed w) in
     \<exists>timestamps messageIds activeStatus.
       getUserMessageMetadata s u = Inr (timestamps, messageIds, activeStatus)
       \<and> length timestamps = length (getUserMessages s u)
       \<and> length messageIds = length (getUserMessages s u)
       \<and> length activeStatus = length (getUserMessages s u)
       \<and> metadata_by_getMessage s u = Inr (zip timestamps (zip messageIds activeStatus))
       \<and> (\<forall>k < length (getUserMessages s u).
             messageIds ! k = getUserMessages s u ! k
             \<and> (\<exists>content owner. getMessage s (getUserMessages s u ! k)
                   = Inr (content, timestamps ! k, owner, activeStatus ! k))))
   \<and> (\<exists>r. getUserMessageMetadata s0 u = Inr r)"
proof -
  have any: "\<exists>r. getUserMessageMetadata s0 u = Inr r"
    by (simp add: getUserMessageMetadata_eq)
  define s where "s = run fhe txs (deployed w)"
  define ids where "ids = userMessages s u"
  have valid: "\<forall>m \<in> set ids. m < totalMessages s"
    unfolding ids_def s_def by (simp add: reachable_index_valid)
  have meta: "getUserMessageMetadata s u =
      Inr (map (\<lambda>m. timestamp (messages s m)) ids, ids, map (\<lambda>m. isActive (messages s m)) ids)"
    unfolding ids_def by (rule getUserMessageMetadata_eq)
  have spec: "metadata_by_getMessage s u =
      Inr (zip (map (\<lambda>m. timestamp (messages s m)) ids)
             (zip ids (map (\<lambda>m. isActive (messages s m)) ids)))"
    unfolding metadata_by_getMessage_def getUserMessages_def ids_def [symmetric]
    by (simp only: map_getMessage_valid [OF valid] zip_rows)
  have rows: "\<forall>k < length ids. ids ! k = ids ! k
      \<and> (\<exists>content owner. getMessage s (ids ! k)
            = Inr (content, map (\<lambda>m. timestamp (messages s m)) ids ! k, owner,
                   map (\<lambda>m. isActive (messages s m)) ids ! k))"
    using valid by (simp add: getMessage_def Let_def)
  have "\<exists>timestamps messageIds activeStatus.
       getUserMessageMetadata s u = Inr (timestamps, messageIds, activeStatus)
       \<and> length timestamps = length ids
       \<and> length messageIds = length ids
       \<and> length activeStatus = length ids
       \<and> metadata_by_getMessage s u = Inr (zip timestamps (zip messageIds activeStatus))
       \<and> (\<forall>k < length ids.
             messageIds ! k = ids ! k
             \<and> (\<exists>content owner. getMessage s (ids ! k)
                   = Inr (content, timestamps ! k, owner, activeStatus ! k)))"
  proof (intro exI conjI)
    show "getUserMessageMetadata s u =
      Inr (map (\<lambda>m. timestamp (messages s m)) ids, ids, map (\<lambda>m. isActive (messages s m)) ids)"
      by (rule meta)
    show "metadata_by_getMessage s u =
      Inr (zip (map (\<lambda>m. timestamp (messages s m)) ids)
             (zip ids (map (\<lambda>m. isActive (messages s m)) ids)))"
      by (rule spec)
    show "\<forall>k < length ids. ids ! k = ids ! k
      \<and> (\<exists>content owner. getMessage s (ids ! k)
            = Inr (content, map (\<lambda>m. timestamp (messages s m)) ids ! k, owner,
                   map (\<lambda>m. isActive (messages s m)) ids ! k))"
      by (rule rows)
  qed simp_all
  with any show ?thesis
    unfolding Let_def s_def [symmetric] getUserMessages_def ids_def [symmetric]
    by (rule conjI [rotated])
qed

theorem C4_metadata_equals_getMessage_witness:
  "\<exists>timestamps messageIds activeStatus.
     getUserMessageMetadata (run mock_fhe mixed_history (deployed [])) alice
       = Inr (timestamps, messageIds, activeStatus)
     \<and> getUserMessages (run mock_fhe mixed_history (deployed [])) alice = [0, 2]
     \<and> length timestamps = 2 \<and> length messageIds = 2 \<and> length activeStatus = 2
     \<and> messageIds ! 0 = 0
     \<and> getMessage (run mock_fhe mixed_history (deployed [])) 0
         = Inr (7, timestamps ! 0, alice, activeStatus ! 0)
     \<and> timestamps ! 0 = 100 \<and> activeStatus ! 0 = False"
proof -
  let ?s = "run mock_fhe mixed_history (deployed [])"
  have ids: "getUserMessages ?s alice = [0, 2]"
    and g0: "getMessage ?s 0 = Inr (7, 100, alice, False)"
    by (simp_all add: ledger_defs loop_defs)
  from C4_metadata_equals_getMessage [of mock_fhe mixed_history "[]" alice, unfolded Let_def ids,
      THEN conjunct1]
  obtain ts ms as where r: "getUserMessageMetadata ?s alice = Inr (ts, ms, as)"
    and len: "length ts = 2" "length ms = 2" "length as = 2"
    and row: "\<forall>k < 2. ms ! k = [0, 2] ! k
        \<and> (\<exists>content owner. getMessage ?s ([0, 2] ! k) = Inr (content, ts ! k, owner, as ! k))"
    by auto
  from row [rule_format, of 0] g0 have "ms ! 0 = 0" "ts ! 0 = 100" "as ! 0 = False"
    by simp_all
  with r ids len g0 show ?thesis by simp
qed

subsection \<open>Reading a deleted record\<close>

text \<open>The index of a sender only grows, at its end.\<close>

lemma execute_index_grows:
  "\<exists>ys. userMessages (snd (execute fhe t s)) u = userMessages s u @ ys"
proof (cases rule: execute_cases [of fhe t s])
  case unchanged
  then show ?thesis by simp
next
  case (submitted a ts h p s')
  from submitMessage_Inr [OF submitted(2)] submitted(3) show ?thesis by simp
next
  case (deleted a ts j s')
  from deleteMessage_Inr [OF deleted(2)] deleted(3) show ?thesis by simp
qed

lemma run_index_grows:
  "\<exists>ys. userMessages (run fhe txs s) u = userMessages s u @ ys"
proof (induction txs arbitrary: s)
  case Nil
  then show ?case by simp
next
  case (Cons t txs)
  from execute_index_grows [of fhe t s u] obtain ys
    where 1: "userMessages (snd (execute fhe t s)) u = userMessages s u @ ys" by blast
  from Cons.IH [of "snd (execute fhe t s)"] obtain zs
    where 2: "userMessages (run fhe txs (snd (execute fhe t s))) u
      = userMessages (snd (execute fhe t s)) u @ zs" by blast
  from 1 2 show ?case by simp
qed

text \<open>
  C10. A deleted record stays readable. After a successful \<open>deleteMessage\<close> of an id, and
  after any further transactions, \<open>getMessage\<close> of that id succeeds for every caller and
  returns the content handle, timestamp and sender the record had before the delete,
  with active flag false; \<open>getMessagesBatch\<close> returns its row; and the id, if it was in its
  sender's index (as it is in every state reached from the deployed contract), is still
  listed there and in \<open>getUserMessageMetadata\<close>, with its timestamp and flag false. In any
  state, \<open>getMessage\<close> of an inactive record below the total count succeeds.
\<close>

theorem C10_deleted_record_readable:
  assumes "deleteMessage a i s = Inr s'"
  shows "(\<forall>txs. let s2 = run fhe txs s' in
        getMessage s2 i = Inr (encryptedContent (messages s i), timestamp (messages s i),
                              sender (messages s i), False)
        \<and> (\<forall>caller t. fst (execute fhe (caller, t, GetMessage i) s2)
              = Inr (Msg (encryptedContent (messages s i), timestamp (messages s i),
                          sender (messages s i), False)))
        \<and> getMessagesBatch s2 [i]
            = Inr ([timestamp (messages s i)], [sender (messages s i)], [False])
        \<and> (i \<in> set (getUserMessages s a) \<longrightarrow>
              i \<in> set (getUserMessages s2 a)
              \<and> (\<exists>timestamps messageIds activeStatus.
                    getUserMessageMetadata s2 a = Inr (timestamps, messageIds, activeStatus)
                    \<and> (\<exists>k < length messageIds. messageIds ! k = i
                          \<and> timestamps ! k = timestamp (messages s i)
                          \<and> activeStatus ! k = False))))
    \<and> (\<forall>txs0 w. s = run fhe txs0 (deployed w) \<longrightarrow> i \<in> set (getUserMessages s a))
    \<and> (j < totalMessages s0 \<and> \<not> isActive (messages s0 j) \<longrightarrow>
          getMessage s0 j = Inr (encryptedContent (messages s0 j), timestamp (messages s0 j),
                                 sender (messages s0 j), False))"
proof (intro conjI allI impI)
  note r = deleteMessage_Inr [OF assms]
  fix txs0 w
  assume "s = run fhe txs0 (deployed w)"
  with r show "i \<in> set (getUserMessages s a)"
    by (simp add: getUserMessages_def reachable_index_valid)
next
  assume "j < totalMessages s0 \<and> \<not> isActive (messages s0 j)"
  then show "getMessage s0 j = Inr (encryptedContent (messages s0 j), timestamp (messages s0 j),
                                 sender (messages s0 j), False)"
    by (simp add: getMessage_def Let_def)
next
  fix txs
  note r = deleteMessage_Inr [OF assms]
  define s2 where "s2 = run fhe txs s'"
  have lt': "i < totalMessages s'" using r by simp
  have rec': "encryptedContent (messages s' i) = encryptedContent (messages s i)"
    "timestamp (messages s' i) = timestamp (messages s i)"
    "sender (messages s' i) = sender (messages s i)" "\<not> isActive (messages s' i)"
    using r by simp_all
  note rr = run_record [OF lt', of fhe txs, folded s2_def]
  have lt: "i < totalMessages s2" using rr by simp
  have rec: "encryptedContent (messages s2 i) = encryptedContent (messages s i)"
    "timestamp (messages s2 i) = timestamp (messages s i)"
    "sender (messages s2 i) = sender (messages s i)" "\<not> isActive (messages s2 i)"
    using rr rec' by simp_all
  have get: "getMessage s2 i = Inr (encryptedContent (messages s i), timestamp (messages s i),
                              sender (messages s i), False)"
    using lt rec by (simp add: getMessage_def Let_def)
  have exe: "\<forall>caller t. fst (execute fhe (caller, t, GetMessage i) s2)
              = Inr (Msg (encryptedContent (messages s i), timestamp (messages s i),
                          sender (messages s i), False))"
    by (simp add: get)
  have bat: "getMessagesBatch s2 [i]
            = Inr ([timestamp (messages s i)], [sender (messages s i)], [False])"
    using lt rec by (simp add: getMessagesBatch_eq)
  have lst: "i \<in> set (getUserMessages s2 a)
      \<and> (\<exists>timestamps messageIds activeStatus.
            getUserMessageMetadata s2 a = Inr (timestamps, messageIds, activeStatus)
            \<and> (\<exists>k < length messageIds. messageIds ! k = i
                  \<and> timestamps ! k = timestamp (messages s i)
                  \<and> activeStatus ! k = False))"
    if "i \<in> set (getUserMessages s a)"
  proof -
    from r have "userMessages s' a = userMessages s a" by simp
    with run_index_grows [of fhe txs s' a] that have mem: "i \<in> set (userMessages s2 a)"
      by (auto simp: s2_def getUserMessages_def)
    then obtain k where k: "k < length (userMessages s2 a)" "userMessages s2 a ! k = i"
      by (auto simp: in_set_conv_nth)
    have "getUserMessageMetadata s2 a =
        Inr (map (\<lambda>m. timestamp (messages s2 m)) (userMessages s2 a), userMessages s2 a,
             map (\<lambda>m. isActive (messages s2 m)) (userMessages s2 a))"
      by (rule getUserMessageMetadata_eq)
    moreover have "map (\<lambda>m. timestamp (messages s2 m)) (userMessages s2 a) ! k
        = timestamp (messages s i)"
      "map (\<lambda>m. isActive (messages s2 m)) (userMessages s2 a) ! k = False"
      using k rec by simp_all
    ultimately show ?thesis using mem k by (auto simp: getUserMessages_def)
  qed
  from get exe bat lst
  show "let s2 = run fhe txs s' in
        getMessage s2 i = Inr (encryptedContent (messages s i), timestamp (messages s i),
                              sender (messages s i), False)
        \<and> (\<forall>caller t. fst (execute fhe (caller, t, GetMessage i) s2)
              = Inr (Msg (encryptedContent (messages s i), timestamp (messages s i),
                          sender (messages s i), False)))
        \<and> getMessagesBatch s2 [i]
            = Inr ([timestamp (messages s i)], [sender (messages s i)], [False])
        \<and> (i \<in> set (getUserMessages s a) \<longrightarrow>
              i \<in> set (getUserMessages s2 a)
              \<and> (\<exists>timestamps messageIds activeStatus.
                    getUserMessageMetadata s2 a = Inr (timestamps, messageIds, activeStatus)
                    \<and> (\<exists>k < length messageIds. messageIds ! k = i
                          \<and> timestamps ! k = timestamp (messages s i)
                          \<and> activeStatus ! k = False)))"
    unfolding Let_def s2_def [symmetric] by blast
qed

theorem C10_deleted_record_readable_witness:
  "\<exists>s'. deleteMessage alice 1 (run mock_fhe three_by_alice (deployed [])) = Inr s'
     \<and> getMessage (run mock_fhe [(bob, 200, SubmitMessage 5 [1])] s') 1
         = Inr (8, 100, alice, False)
     \<and> fst (execute mock_fhe (bob, 300, GetMessage 1)
              (run mock_fhe [(bob, 200, SubmitMessage 5 [1])] s'))
         = Inr (Msg (8, 100, alice, False))
     \<and> getMessagesBatch (run mock_fhe [(bob, 200, SubmitMessage 5 [1])] s') [1]
         = Inr ([100], [alice], [False])
     \<and> 1 \<in> set (getUserMessages (run mock_fhe [(bob, 200, SubmitMessage 5 [1])] s') alice)"
proof -
  let ?s = "run mock_fhe three_by_alice (deployed [])"
  let ?txs = "[(bob, 200, SubmitMessage 5 [1])]"
  obtain s' where del: "deleteMessage alice 1 ?s = Inr s'"
    by (simp add: ledger_defs)
  have m1: "messages ?s 1 = \<lparr>encryptedContent = 8, timestamp = 100, sender = alice, isActive = True\<rparr>"
    and mem: "1 \<in> set (getUserMessages ?s alice)"
    by (simp_all add: ledger_defs)
  note inst = C10_deleted_record_readable [OF del, of mock_fhe 0 "deployed []",
      THEN conjunct1, THEN spec, of ?txs, unfolded Let_def m1]
  from inst mem
  have "getMessage (run mock_fhe ?txs s') 1 = Inr (8, 100, alice, False)
     \<and> fst (execute mock_fhe (bob, 300, GetMessage 1) (run mock_fhe ?txs s'))
         = Inr (Msg (8, 100, alice, False))
     \<and> getMessagesBatch (run mock_fhe ?txs s') [1] = Inr ([100], [alice], [False])
     \<and> 1 \<in> set (getUserMessages (run mock_fhe ?txs s') alice)"
    by simp
  with del show ?thesis by blast
qed


end
